theory Spec2Isabelle
  imports Main
begin

section \<open>The queue's documents and the collection that holds them\<close>

text \<open>
  \<^verbatim>\<open>src/index.ts\<close> keeps no state of its own: every method of \<^verbatim>\<open>Queue\<close> is one call
  to the MongoDB collection \<^verbatim>\<open>this.col\<close>. The embedding therefore passes the collection
  in and returns it updated. The two values a method reads from its environment, the
  clock (\<^verbatim>\<open>now()\<close>, \<^verbatim>\<open>Date.now()\<close>) and the random token (\<^verbatim>\<open>id()\<close>), are parameters:
  \<open>now\<close> is the instant of the call in milliseconds, and the few clock reads of one
  call are taken at that one instant. A timestamp is the instant its ISO string
  denotes, so the store's comparison of two \<^verbatim>\<open>visible\<close> strings is the comparison of
  two instants.
\<close>

type_synonym time = int

text \<open>
  A field of a document that the interface declares \<^verbatim>\<open>deleted?: null | string\<close>: absent,
  present and null, or present with a value.
\<close>

datatype 'a field = Missing | Null | Value 'a

text \<open>
  \<^verbatim>\<open>QueueDocument<P>\<close>, with the \<^verbatim>\<open>_id\<close> the store adds. \<^verbatim>\<open>ack?\<close> and \<^verbatim>\<open>tries?\<close> are
  optional fields: \<open>None\<close> is the absent field.
\<close>

record 'p QueueDocument =
  doc_id :: nat
  visible :: time
  payload :: 'p
  ack :: "string option"
  tries :: "nat option"
  deleted :: "time field"

text \<open>
  The collection: its documents in insertion order, the counter the store draws the
  next \<^verbatim>\<open>_id\<close> from, and whether the unique sparse index on \<^verbatim>\<open>ack\<close> exists
  (\<^verbatim>\<open>createIndexes\<close>). An \<^verbatim>\<open>_id\<close> is a natural number here: the store hands identifiers out
  in ascending order and never twice, which is all the queue uses of them (the sort
  \<^verbatim>\<open>_id: 1\<close> and the string form it returns).
\<close>

record 'p Collection =
  docs :: "'p QueueDocument list"
  next_id :: nat
  ack_unique :: bool

datatype error = Error string | DuplicateKey

datatype sort_spec = Natural | ByTriesThenId

definition empty_collection :: "'p Collection" where
  "empty_collection = \<lparr>docs = [], next_id = 0, ack_unique = False\<rparr>"

section \<open>The store's operations, as the queue calls them\<close>

text \<open>The values of the indexed field \<^verbatim>\<open>ack\<close>, one per document that has the field.\<close>

fun acks :: "'p QueueDocument list \<Rightarrow> string list" where
  "acks [] = []"
| "acks (d # ds) = (case ack d of None \<Rightarrow> acks ds | Some a \<Rightarrow> a # acks ds)"

text \<open>
  \<^verbatim>\<open>insertOne({ visible, payload })\<close>: the store assigns the next identifier and appends
  the document. The new document has no \<^verbatim>\<open>ack\<close> field, so the sparse index does not
  cover it.
\<close>

definition insertOne :: "'p Collection \<Rightarrow> time \<Rightarrow> 'p \<Rightarrow> 'p Collection \<times> nat" where
  "insertOne c v p =
     (c\<lparr>docs := docs c @
          [\<lparr>doc_id = next_id c, visible = v, payload = p, ack = None, tries = None,
            deleted = Missing\<rparr>],
        next_id := Suc (next_id c)\<rparr>,
      next_id c)"

text \<open>
  The sort \<^verbatim>\<open>{ tries: 1, _id: 1 }\<close>: ascending \<^verbatim>\<open>tries\<close>, a document without the field
  before every document with it, then ascending \<^verbatim>\<open>_id\<close>.
\<close>

fun tries_less :: "nat option \<Rightarrow> nat option \<Rightarrow> bool" where
  "tries_less None None = False"
| "tries_less None (Some n) = True"
| "tries_less (Some m) None = False"
| "tries_less (Some m) (Some n) = (m < n)"

definition sort_before :: "'p QueueDocument \<Rightarrow> 'p QueueDocument \<Rightarrow> bool" where
  "sort_before a b =
     (tries_less (tries a) (tries b) \<or> (tries a = tries b \<and> doc_id a \<le> doc_id b))"


text \<open>The first document of a list in that sort order, and in natural order.\<close>

fun first_sorted :: "'p QueueDocument list \<Rightarrow> 'p QueueDocument option" where
  "first_sorted [] = None"
| "first_sorted (d # ds) =
     (case first_sorted ds of
        None \<Rightarrow> Some d
      | Some e \<Rightarrow> if sort_before d e then Some d else Some e)"

fun first_natural :: "'p QueueDocument list \<Rightarrow> 'p QueueDocument option" where
  "first_natural [] = None"
| "first_natural (d # ds) = Some d"

definition update_doc ::
  "nat \<Rightarrow> ('p QueueDocument \<Rightarrow> 'p QueueDocument) \<Rightarrow> 'p QueueDocument list \<Rightarrow> 'p QueueDocument list"
where
  "update_doc i u ds = map (\<lambda>d. if doc_id d = i then u d else d) ds"

text \<open>
  \<^verbatim>\<open>findOneAndUpdate(filter, update, { sort, returnDocument: 'after' })\<close>: the first
  match in the sort order is updated in place and returned as updated; no match gives
  \<^verbatim>\<open>null\<close> and changes nothing. With the unique index, an update that would give two
  documents the same \<^verbatim>\<open>ack\<close> is refused with a duplicate key error, and nothing changes.
  The result is the collection after the call and what the call returned or threw.
\<close>

definition findOneAndUpdate ::
  "'p Collection \<Rightarrow> ('p QueueDocument \<Rightarrow> bool) \<Rightarrow> ('p QueueDocument \<Rightarrow> 'p QueueDocument) \<Rightarrow>
     sort_spec \<Rightarrow> 'p Collection \<times> (error + 'p QueueDocument option)"
where
  "findOneAndUpdate c flt upd srt =
     (case (case srt of Natural \<Rightarrow> first_natural | ByTriesThenId \<Rightarrow> first_sorted)
             (filter flt (docs c)) of
        None \<Rightarrow> (c, Inr None)
      | Some m \<Rightarrow>
          (let ds = update_doc (doc_id m) upd (docs c)
           in if ack_unique c \<and> \<not> distinct (acks ds) then (c, Inl DuplicateKey)
              else (c\<lparr>docs := ds\<rparr>, Inr (Some (upd m)))))"

definition deleteMany :: "'p Collection \<Rightarrow> ('p QueueDocument \<Rightarrow> bool) \<Rightarrow> 'p Collection" where
  "deleteMany c flt = c\<lparr>docs := filter (\<lambda>d. \<not> flt d) (docs c)\<rparr>"

definition countDocuments :: "'p Collection \<Rightarrow> ('p QueueDocument \<Rightarrow> bool) \<Rightarrow> nat" where
  "countDocuments c flt = length (filter flt (docs c))"

text \<open>
  \<^verbatim>\<open>createIndex({ ack: 1 }, { unique: true, sparse: true })\<close>: refused when two documents
  already share an \<^verbatim>\<open>ack\<close>. The other index of \<^verbatim>\<open>createIndexes\<close>, on
  \<^verbatim>\<open>{ deleted: 1, visible: 1 }\<close>, constrains nothing.
\<close>

definition createIndexes :: "'p Collection \<Rightarrow> 'p Collection \<times> (error + unit)" where
  "createIndexes c =
     (if distinct (acks (docs c)) then (c\<lparr>ack_unique := True\<rparr>, Inr ())
      else (c, Inl DuplicateKey))"

section \<open>The filters of \<^verbatim>\<open>src/index.ts\<close>\<close>

text \<open>\<^verbatim>\<open>deleted: null\<close> matches a document whose field is absent or null.\<close>

definition deleted_null :: "'p QueueDocument \<Rightarrow> bool" where
  "deleted_null d = (deleted d = Missing \<or> deleted d = Null)"

text \<open>\<^verbatim>\<open>deleted: { $exists: true }\<close> matches a document that has the field.\<close>

definition deleted_exists :: "'p QueueDocument \<Rightarrow> bool" where
  "deleted_exists d = (deleted d \<noteq> Missing)"

text \<open>\<^verbatim>\<open>{ deleted: null, visible: { $lte: now() } }\<close> of \<^verbatim>\<open>get\<close> and \<^verbatim>\<open>size\<close>.\<close>

definition available :: "time \<Rightarrow> 'p QueueDocument \<Rightarrow> bool" where
  "available now d = (deleted_null d \<and> visible d \<le> now)"

text \<open>\<^verbatim>\<open>{ ack: ack, visible: { $gt: now() }, deleted: null }\<close> of \<^verbatim>\<open>ping\<close> and \<^verbatim>\<open>ack\<close>.\<close>

definition leased_by :: "string \<Rightarrow> time \<Rightarrow> 'p QueueDocument \<Rightarrow> bool" where
  "leased_by a now d = (ack d = Some a \<and> visible d > now \<and> deleted_null d)"

text \<open>\<^verbatim>\<open>{ ack: { $exists: true }, visible: { $gt: now() }, deleted: null }\<close> of \<^verbatim>\<open>inFlight\<close>.\<close>

definition in_flight :: "time \<Rightarrow> 'p QueueDocument \<Rightarrow> bool" where
  "in_flight now d = (ack d \<noteq> None \<and> visible d > now \<and> deleted_null d)"

section \<open>The queue\<close>


record Queue =
  visibility :: int
  delay :: int


definition nowPlusSecs :: "time \<Rightarrow> int \<Rightarrow> time" where
  "nowPlusSecs now deltaInSeconds = now + deltaInSeconds * 1000"

text \<open>
  \<^verbatim>\<open>add(payload, opts)\<close>; \<open>dopt\<close> is \<^verbatim>\<open>opts?.delay\<close>. The result is the new collection and
  the inserted identifier (the source returns its string form).
\<close>

definition queue_add ::
  "Queue \<Rightarrow> 'p Collection \<Rightarrow> time \<Rightarrow> 'p \<Rightarrow> int option \<Rightarrow> 'p Collection \<times> nat"
where
  "queue_add q c now p dopt =
     (let dl = (case dopt of None \<Rightarrow> delay q | Some d \<Rightarrow> d);
          v = (if dl \<noteq> 0 then nowPlusSecs now dl else now)
      in insertOne c v p)"

text \<open>The external representation \<^verbatim>\<open>get\<close> returns: \<^verbatim>\<open>{ id, ack, payload, tries }\<close>.\<close>

record 'p Message =
  msg_id :: nat
  msg_ack :: "string option"
  msg_payload :: 'p
  msg_tries :: "nat option"

text \<open>\<^verbatim>\<open>$inc: { tries: 1 }\<close>: an absent field counts as 0.\<close>

definition inc_tries :: "nat option \<Rightarrow> nat option" where
  "inc_tries t = Some (case t of None \<Rightarrow> 1 | Some n \<Rightarrow> n + 1)"

definition claim_update :: "string \<Rightarrow> time \<Rightarrow> 'p QueueDocument \<Rightarrow> 'p QueueDocument" where
  "claim_update a v d = d\<lparr>tries := inc_tries (tries d), ack := Some a, visible := v\<rparr>"

text \<open>
  \<^verbatim>\<open>get(opts)\<close>; \<open>vopt\<close> is \<^verbatim>\<open>opts?.visibility\<close> and \<open>new_ack\<close> the value of \<^verbatim>\<open>id()\<close>.
  \<open>Inr None\<close> is the \<^verbatim>\<open>null\<close> result, \<open>Inl e\<close> an error the store threw. (\<^verbatim>\<open>maxTimeMS\<close>
  bounds the server's time and is not modelled.)
\<close>

definition queue_get ::
  "Queue \<Rightarrow> 'p Collection \<Rightarrow> time \<Rightarrow> int option \<Rightarrow> string \<Rightarrow>
     'p Collection \<times> (error + 'p Message option)"
where
  "queue_get q c now vopt new_ack =
     (let vis = (case vopt of None \<Rightarrow> visibility q | Some v \<Rightarrow> v)
      in case findOneAndUpdate c (available now)
                (claim_update new_ack (nowPlusSecs now vis)) ByTriesThenId of
           (c', Inl e) \<Rightarrow> (c', Inl e)
         | (c', Inr None) \<Rightarrow> (c', Inr None)
         | (c', Inr (Some r)) \<Rightarrow>
             (c', Inr (Some \<lparr>msg_id = doc_id r, msg_ack = ack r, msg_payload = payload r,
                              msg_tries = tries r\<rparr>)))"

text \<open>\<^verbatim>\<open>ping(ack, opts)\<close>; \<open>vopt\<close> is \<^verbatim>\<open>opts?.visibility\<close>.\<close>

definition queue_ping ::
  "Queue \<Rightarrow> 'p Collection \<Rightarrow> time \<Rightarrow> string \<Rightarrow> int option \<Rightarrow> 'p Collection \<times> (error + nat)"
where
  "queue_ping q c now a vopt =
     (let vis = (case vopt of None \<Rightarrow> visibility q | Some v \<Rightarrow> v)
      in case findOneAndUpdate c (leased_by a now)
                (\<lambda>d. d\<lparr>visible := nowPlusSecs now vis\<rparr>) Natural of
           (c', Inl e) \<Rightarrow> (c', Inl e)
         | (c', Inr None) \<Rightarrow> (c', Inl (Error (''Queue.ping(): Unidentified ack  : '' @ a)))
         | (c', Inr (Some msg)) \<Rightarrow> (c', Inr (doc_id msg)))"

text \<open>\<^verbatim>\<open>ack(ack)\<close>.\<close>

definition queue_ack ::
  "'p Collection \<Rightarrow> time \<Rightarrow> string \<Rightarrow> 'p Collection \<times> (error + nat)"
where
  "queue_ack c now a =
     (case findOneAndUpdate c (leased_by a now) (\<lambda>d. d\<lparr>deleted := Value now\<rparr>) Natural of
        (c', Inl e) \<Rightarrow> (c', Inl e)
      | (c', Inr None) \<Rightarrow> (c', Inl (Error (''Queue.ack(): Unidentified ack : '' @ a)))
      | (c', Inr (Some msg)) \<Rightarrow> (c', Inr (doc_id msg)))"

definition queue_clean :: "'p Collection \<Rightarrow> 'p Collection" where
  "queue_clean c = deleteMany c deleted_exists"

definition queue_total :: "'p Collection \<Rightarrow> nat" where
  "queue_total c = countDocuments c (\<lambda>d. True)"



definition queue_done :: "'p Collection \<Rightarrow> nat" where
  "queue_done c = countDocuments c deleted_exists"

section \<open>Sequences of calls\<close>

text \<open>One call of a producer or consumer, run at the instant paired with it.\<close>

datatype 'p call =
    Add 'p "int option"
  | Get "int option" string
  | Ping string "int option"
  | Ack string
  | Clean

fun exec :: "Queue \<Rightarrow> 'p Collection \<Rightarrow> time \<times> 'p call \<Rightarrow> 'p Collection" where
  "exec q c (now, Add p dopt) = fst (queue_add q c now p dopt)"
| "exec q c (now, Get vopt a) = fst (queue_get q c now vopt a)"
| "exec q c (now, Ping a vopt) = fst (queue_ping q c now a vopt)"
| "exec q c (now, Ack a) = fst (queue_ack c now a)"
| "exec q c (now, Clean) = queue_clean c"

definition run :: "Queue \<Rightarrow> 'p Collection \<Rightarrow> (time \<times> 'p call) list \<Rightarrow> 'p Collection" where
  "run q c cs = foldl (exec q) c cs"

text \<open>The queue as set up: the empty collection after \<^verbatim>\<open>createIndexes\<close> has run on it.\<close>

definition fresh :: "'p Collection" where
  "fresh = fst (createIndexes empty_collection)"

section \<open>Well-formed collections\<close>

text \<open>
  What holds of the collection of a queue set up this way, whatever calls were made
  (\<open>run_well_formed\<close> below): identifiers ascend in insertion order and lie below the
  store's counter, the index is there and no two documents share an \<^verbatim>\<open>ack\<close>, no
  \<^verbatim>\<open>deleted\<close> field is null, and a document has \<^verbatim>\<open>ack\<close> exactly when it has \<^verbatim>\<open>tries\<close>,
  which is then positive.
\<close>

definition doc_ok :: "'p QueueDocument \<Rightarrow> bool" where
  "doc_ok d = (deleted d \<noteq> Null \<and> (ack d = None) = (tries d = None) \<and> tries d \<noteq> Some 0)"

definition well_formed :: "'p Collection \<Rightarrow> bool" where
  "well_formed c =
     (sorted_wrt (<) (map doc_id (docs c)) \<and> list_all (\<lambda>d. doc_id d < next_id c) (docs c) \<and>
      ack_unique c \<and> distinct (acks (docs c)) \<and> list_all doc_ok (docs c))"

text \<open>
  The identifier \<open>i\<close> has been issued, and a document that carries it has the \<^verbatim>\<open>deleted\<close>
  field (used in the proofs below; \<open>retired_run\<close> shows that every call keeps it).
\<close>

definition retired :: "nat \<Rightarrow> 'p Collection \<Rightarrow> bool" where
  "retired i c = (i < next_id c \<and> list_all (\<lambda>d. doc_id d = i \<longrightarrow> deleted_exists d) (docs c))"

text \<open>
  The property claim C9 states of a collection at an instant: every document that has
  \<^verbatim>\<open>ack\<close> is leased then (\<^verbatim>\<open>deleted\<close> unset and \<open>visible > now\<close>).
\<close>

definition token_implies_leased :: "time \<Rightarrow> 'p Collection \<Rightarrow> bool" where
  "token_implies_leased now c = list_all (\<lambda>d. ack d \<noteq> None \<longrightarrow> in_flight now d) (docs c)"

section \<open>Concrete collections\<close>

text \<open>A queue with the constructor's defaults, for the concrete instances below.\<close>

definition example_queue :: Queue where
  "example_queue = \<lparr>visibility = 30, delay = 0\<rparr>"

text \<open>
  A collection reached from the fresh one: two messages added at once, one with a delay
  of 60 s, and the first claimed at 1 s for 10 s.
\<close>

definition example_collection :: "string Collection" where
  "example_collection =
     run example_queue fresh
       [(0, Add ''first'' None), (0, Add ''second'' None), (0, Add ''later'' (Some 60)),
        (1000, Get (Some 10) ''t1'')]"

text \<open>
  That collection after a claim at 20 s with token \<open>t2\<close>, and after the completion of the
  claimed message at 21 s.
\<close>

definition example_claimed :: "string Collection" where
  "example_claimed = fst (queue_get example_queue example_collection 20000 None ''t2'')"

definition example_completed :: "string Collection" where
  "example_completed = fst (queue_ack example_claimed 21000 ''t2'')"




section \<open>Facts about the store's operations and the queue's calls\<close>

lemma fresh_eq: "fresh = \<lparr>docs = [], next_id = 0, ack_unique = True\<rparr>"
  by (simp add: fresh_def createIndexes_def empty_collection_def)

lemma tries_less_irrefl: "\<not> tries_less t t" by (cases t) auto



lemma first_sorted_None: "(first_sorted xs = None) = (xs = [])"
  by (cases xs) (auto split: option.splits)

lemma first_sorted_mem: "first_sorted xs = Some m \<Longrightarrow> m \<in> set xs"
  by (induction xs arbitrary: m) (auto split: option.splits if_splits)


lemma first_natural_None: "(first_natural xs = None) = (xs = [])"
  by (cases xs) auto

lemma first_natural_mem: "first_natural xs = Some m \<Longrightarrow> m \<in> set xs"
  by (cases xs) auto

lemma acks_append: "acks (xs @ ys) = acks xs @ acks ys"
  by (induction xs) (auto split: option.splits)

lemma set_acks: "set (acks ds) = {a. \<exists>d\<in>set ds. ack d = Some a}"
  by (induction ds) (auto split: option.splits)

lemma acks_filter_distinct: "distinct (acks ds) \<Longrightarrow> distinct (acks (filter P ds))"
  by (induction ds) (auto simp: set_acks split: option.splits)

lemma acks_update_same: "(\<And>d. ack (u d) = ack d) \<Longrightarrow> acks (update_doc i u ds) = acks ds"
  by (induction ds) (auto simp: update_doc_def split: option.splits)

lemma acks_unique:
  "distinct (acks ds) \<Longrightarrow> d \<in> set ds \<Longrightarrow> e \<in> set ds \<Longrightarrow> ack d = Some a \<Longrightarrow> ack e = Some a \<Longrightarrow>
   doc_id d = doc_id e"
  by (induction ds) (auto simp: set_acks split: option.splits)

lemma ids_update_doc: "(\<And>d. doc_id (u d) = doc_id d) \<Longrightarrow> map doc_id (update_doc i u ds) = map doc_id ds"
  by (simp add: update_doc_def)

lemma ids_inj:
  "sorted_wrt (<) (map doc_id ds) \<Longrightarrow> d \<in> set ds \<Longrightarrow> e \<in> set ds \<Longrightarrow> doc_id d = doc_id e \<Longrightarrow> d = e"
  by (induction ds) auto

lemma update_doc_absent: "\<forall>d\<in>set ds. doc_id d \<noteq> i \<Longrightarrow> update_doc i u ds = ds"
  by (induction ds) (auto simp: update_doc_def)

lemma doc_ok_claim_update: "doc_ok d \<Longrightarrow> doc_ok (claim_update a v d)"
  by (simp add: doc_ok_def claim_update_def inc_tries_def split: option.splits)

lemma well_formed_insertOne: "well_formed c \<Longrightarrow> well_formed (fst (insertOne c v p))"
  by (auto simp: well_formed_def insertOne_def sorted_wrt_append acks_append doc_ok_def
      list_all_iff less_Suc_eq)

lemma list_all_update_doc:
  "list_all P ds \<Longrightarrow> (\<And>d. P d \<Longrightarrow> P (u d)) \<Longrightarrow> list_all P (update_doc i u ds)"
  by (auto simp: list_all_iff update_doc_def)

lemma well_formed_update_doc:
  assumes wf: "well_formed c"
    and id: "\<And>d. doc_id (u d) = doc_id d"
    and ok: "\<And>d. doc_ok d \<Longrightarrow> doc_ok (u d)"
    and dist: "distinct (acks (update_doc i u (docs c)))"
  shows "well_formed (c\<lparr>docs := update_doc i u (docs c)\<rparr>)"
proof -
  have "list_all (\<lambda>d. doc_id d < next_id c) (update_doc i u (docs c))"
    using wf by (intro list_all_update_doc) (simp_all add: well_formed_def id)
  moreover have "list_all doc_ok (update_doc i u (docs c))"
    using wf by (intro list_all_update_doc) (simp_all add: well_formed_def ok)
  ultimately show ?thesis
    using wf dist by (simp add: well_formed_def ids_update_doc [of u, OF id])
qed

lemma well_formed_findOneAndUpdate:
  assumes wf: "well_formed c"
    and id: "\<And>d. doc_id (u d) = doc_id d"
    and ok: "\<And>d. doc_ok d \<Longrightarrow> doc_ok (u d)"
  shows "well_formed (fst (findOneAndUpdate c flt u srt))"
proof -
  have "ack_unique c" using wf by (simp add: well_formed_def)
  then show ?thesis
    using wf well_formed_update_doc [OF wf id ok]
    by (simp add: findOneAndUpdate_def Let_def split: option.splits)
qed

lemma well_formed_deleteMany: "well_formed c \<Longrightarrow> well_formed (deleteMany c flt)"
  by (auto simp: well_formed_def deleteMany_def acks_filter_distinct list_all_iff
      sorted_wrt_filter sorted_wrt_map)

lemma fst_queue_get:
  "fst (queue_get q c now vopt a) =
   fst (findOneAndUpdate c (available now)
     (claim_update a (nowPlusSecs now (case vopt of None \<Rightarrow> visibility q | Some v \<Rightarrow> v)))
     ByTriesThenId)"
  by (simp add: queue_get_def Let_def split: prod.splits sum.splits option.splits)

lemma fst_queue_ping:
  "fst (queue_ping q c now a vopt) =
   fst (findOneAndUpdate c (leased_by a now)
     (\<lambda>d. d\<lparr>visible := nowPlusSecs now (case vopt of None \<Rightarrow> visibility q | Some v \<Rightarrow> v)\<rparr>)
     Natural)"
  by (simp add: queue_ping_def Let_def split: prod.splits sum.splits option.splits)

lemma fst_queue_ack:
  "fst (queue_ack c now a) =
   fst (findOneAndUpdate c (leased_by a now) (\<lambda>d. d\<lparr>deleted := Value now\<rparr>) Natural)"
  by (simp add: queue_ack_def split: prod.splits sum.splits option.splits)

lemma well_formed_exec: "well_formed c \<Longrightarrow> well_formed (exec q c call)"
proof (cases call)
  case (Pair now op)
  assume wf: "well_formed c"
  show ?thesis
  proof (cases op)
    case (Add p dopt)
    with Pair wf show ?thesis
      by (simp add: queue_add_def Let_def well_formed_insertOne)
  next
    case (Get vopt a)
    have "well_formed (fst (findOneAndUpdate c flt (claim_update b v) srt))" for flt b v srt
      using wf by (rule well_formed_findOneAndUpdate)
        (simp_all add: doc_ok_claim_update, simp add: claim_update_def)
    with Pair Get show ?thesis
      by (simp add: fst_queue_get)
  next
    case (Ping a vopt)
    have "well_formed (fst (findOneAndUpdate c flt (\<lambda>d. d\<lparr>visible := v\<rparr>) srt))" for flt v srt
      using wf by (rule well_formed_findOneAndUpdate) (simp_all add: doc_ok_def)
    with Pair Ping show ?thesis
      by (simp add: fst_queue_ping)
  next
    case (Ack a)
    have "well_formed (fst (findOneAndUpdate c flt (\<lambda>d. d\<lparr>deleted := Value v\<rparr>) srt))" for flt v srt
      using wf by (rule well_formed_findOneAndUpdate) (simp_all add: doc_ok_def)
    with Pair Ack show ?thesis
      by (simp add: fst_queue_ack)
  next
    case Clean
    with Pair wf show ?thesis
      by (simp add: queue_clean_def well_formed_deleteMany)
  qed
qed

lemma well_formed_run: "well_formed c \<Longrightarrow> well_formed (run q c cs)"
  unfolding run_def by (induction cs arbitrary: c) (simp_all add: well_formed_exec)

lemma well_formed_fresh: "well_formed fresh"
  by (simp add: fresh_eq well_formed_def)

lemma run_well_formed: "well_formed (run q fresh cs)"
  by (simp add: well_formed_run well_formed_fresh)

lemma run_append: "run q c (cs @ cs') = run q (run q c cs) cs'"
  by (simp add: run_def)

lemma update_doc_only:
  "sorted_wrt (<) (map doc_id ds) \<Longrightarrow> m \<in> set ds \<Longrightarrow>
   update_doc (doc_id m) u ds = map (\<lambda>d. if d = m then u m else d) ds"
  unfolding update_doc_def by (rule map_cong) (auto dest: ids_inj)

lemma update_doc_Cons:
  "update_doc i u (x # xs) = (if doc_id x = i then u x else x) # update_doc i u xs"
  by (simp add: update_doc_def)

lemma update_doc_Nil: "update_doc i u [] = []"
  by (simp add: update_doc_def)

lemma ack_claim_update: "ack (claim_update a v d) = Some a"
  by (simp add: claim_update_def)

lemma set_acks_claim:
  "set (acks (update_doc i (claim_update a v) ds)) =
   {b. \<exists>d\<in>set ds. doc_id d \<noteq> i \<and> ack d = Some b} \<union> (if i \<in> doc_id ` set ds then {a} else {})"
  by (induction ds) (auto simp: update_doc_Nil update_doc_Cons ack_claim_update split: option.splits)

lemma distinct_acks_claim:
  "sorted_wrt (<) (map doc_id ds) \<Longrightarrow> distinct (acks ds) \<Longrightarrow> i \<in> doc_id ` set ds \<Longrightarrow>
   distinct (acks (update_doc i (claim_update a v) ds)) =
     (\<forall>d\<in>set ds. doc_id d \<noteq> i \<longrightarrow> ack d \<noteq> Some a)"
proof (induction ds)
  case Nil
  then show ?case by simp
next
  case (Cons x xs)
  have dxs: "distinct (acks xs)" using Cons.prems(2) by (simp split: option.splits)
  show ?case
  proof (cases "doc_id x = i")
    case True
    then have others: "\<forall>d\<in>set xs. doc_id d \<noteq> i" using Cons.prems(1) by auto
    then have same: "update_doc i (claim_update a v) xs = xs" by (rule update_doc_absent)
    have "distinct (acks (update_doc i (claim_update a v) (x # xs))) = (a \<notin> set (acks xs))"
      using True same dxs by (simp add: update_doc_Cons ack_claim_update)
    also have "\<dots> = (\<forall>d\<in>set xs. ack d \<noteq> Some a)" by (auto simp: set_acks)
    also have "\<dots> = (\<forall>d\<in>set (x # xs). doc_id d \<noteq> i \<longrightarrow> ack d \<noteq> Some a)"
      using True others by auto
    finally show ?thesis .
  next
    case False
    then have mem: "i \<in> doc_id ` set xs" using Cons.prems(3) by auto
    have ih: "distinct (acks (update_doc i (claim_update a v) xs)) =
        (\<forall>d\<in>set xs. doc_id d \<noteq> i \<longrightarrow> ack d \<noteq> Some a)"
      using Cons.IH Cons.prems(1) dxs mem by simp
    show ?thesis
    proof (cases "ack x")
      case None
      with ih False show ?thesis by (simp add: update_doc_Cons)
    next
      case (Some b)
      have "b \<notin> set (acks xs)" using Cons.prems(2) Some by simp
      then have "\<forall>d\<in>set xs. ack d \<noteq> Some b" by (auto simp: set_acks)
      then have "(b \<notin> set (acks (update_doc i (claim_update a v) xs))) = (b \<noteq> a)"
        using mem by (auto simp: set_acks_claim)
      with ih False Some show ?thesis by (auto simp: update_doc_Cons)
    qed
  qed
qed

lemma findOneAndUpdate_no_match:
  "filter flt (docs c) = [] \<Longrightarrow> findOneAndUpdate c flt u srt = (c, Inr None)"
  by (cases srt) (simp_all add: findOneAndUpdate_def)

lemma findOneAndUpdate_keep_ack:
  assumes "well_formed c" and "\<And>d. ack (u d) = ack d"
    and "(case srt of Natural \<Rightarrow> first_natural | ByTriesThenId \<Rightarrow> first_sorted)
           (filter flt (docs c)) = Some m"
  shows "findOneAndUpdate c flt u srt =
    (c\<lparr>docs := update_doc (doc_id m) u (docs c)\<rparr>, Inr (Some (u m)))"
  using assms by (simp add: findOneAndUpdate_def Let_def acks_update_same well_formed_def)

lemma queue_get_empty:
  "filter (available now) (docs c) = [] \<Longrightarrow> queue_get q c now vopt a = (c, Inr None)"
  by (simp add: queue_get_def findOneAndUpdate_no_match)

lemma queue_get_first:
  assumes wf: "well_formed c"
    and m: "first_sorted (filter (available now) (docs c)) = Some m"
  shows "queue_get q c now vopt a =
    (if \<forall>d\<in>set (docs c). doc_id d \<noteq> doc_id m \<longrightarrow> ack d \<noteq> Some a
     then (c\<lparr>docs := update_doc (doc_id m)
               (claim_update a (nowPlusSecs now (case vopt of None \<Rightarrow> visibility q | Some v \<Rightarrow> v)))
               (docs c)\<rparr>,
           Inr (Some \<lparr>msg_id = doc_id m, msg_ack = Some a, msg_payload = payload m,
                      msg_tries = inc_tries (tries m)\<rparr>))
     else (c, Inl DuplicateKey))"
proof -
  have "m \<in> set (docs c)" using first_sorted_mem [OF m] by simp
  then have "doc_id m \<in> doc_id ` set (docs c)" by simp
  then have "distinct (acks (update_doc (doc_id m) (claim_update a v) (docs c))) =
      (\<forall>d\<in>set (docs c). doc_id d \<noteq> doc_id m \<longrightarrow> ack d \<noteq> Some a)" for v
    using wf by (intro distinct_acks_claim) (simp_all add: well_formed_def)
  moreover have "ack_unique c" using wf by (simp add: well_formed_def)
  ultimately show ?thesis
    using m by (simp add: queue_get_def findOneAndUpdate_def Let_def claim_update_def)
qed

lemma queue_get_Some:
  assumes wf: "well_formed c"
    and g: "queue_get q c now vopt a = (c', Inr (Some r))"
  shows "\<exists>m. first_sorted (filter (available now) (docs c)) = Some m \<and>
    (\<forall>d\<in>set (docs c). doc_id d \<noteq> doc_id m \<longrightarrow> ack d \<noteq> Some a) \<and>
    c' = c\<lparr>docs := update_doc (doc_id m)
               (claim_update a (nowPlusSecs now (case vopt of None \<Rightarrow> visibility q | Some v \<Rightarrow> v)))
               (docs c)\<rparr> \<and>
    r = \<lparr>msg_id = doc_id m, msg_ack = Some a, msg_payload = payload m,
         msg_tries = inc_tries (tries m)\<rparr>"
proof (cases "first_sorted (filter (available now) (docs c))")
  case None
  then have "filter (available now) (docs c) = []" by (simp add: first_sorted_None)
  with g show ?thesis by (simp add: queue_get_empty)
next
  case (Some m)
  show ?thesis using g unfolding queue_get_first [OF wf Some]
    by (auto simp: Some split: if_splits)
qed


lemma example_collection_well_formed: "well_formed example_collection"
  by (simp add: example_collection_def run_well_formed)


lemma first_natural_filter:
  "first_natural (filter P ds) = Some m \<Longrightarrow> m \<in> set ds \<and> P m"
  using first_natural_mem [of "filter P ds" m] by simp

lemma leased_by_unique:
  assumes "well_formed c" and "m \<in> set (docs c)" and "e \<in> set (docs c)"
    and "leased_by a now m" and "leased_by a now e"
  shows "e = m"
proof -
  have "doc_id e = doc_id m"
    using assms by (intro acks_unique [of "docs c" e m a]) (simp_all add: well_formed_def leased_by_def)
  then show ?thesis using assms(1-3) ids_inj [of "docs c" e m] by (simp add: well_formed_def)
qed

lemma findOneAndUpdate_lease:
  assumes wf: "well_formed c" and keep: "\<And>d. ack (u d) = ack d"
  shows "(\<not> (\<exists>d\<in>set (docs c). leased_by a now d) \<longrightarrow>
            findOneAndUpdate c (leased_by a now) u Natural = (c, Inr None))
       \<and> (\<forall>m\<in>set (docs c). leased_by a now m \<longrightarrow>
            findOneAndUpdate c (leased_by a now) u Natural =
              (c\<lparr>docs := map (\<lambda>d. if d = m then u m else d) (docs c)\<rparr>, Inr (Some (u m))))"
proof (intro conjI impI ballI)
  assume "\<not> (\<exists>d\<in>set (docs c). leased_by a now d)"
  then have "filter (leased_by a now) (docs c) = []" by (simp add: filter_empty_conv)
  then show "findOneAndUpdate c (leased_by a now) u Natural = (c, Inr None)"
    by (rule findOneAndUpdate_no_match)
next
  fix m assume m: "m \<in> set (docs c)" "leased_by a now m"
  then have "filter (leased_by a now) (docs c) \<noteq> []" by (auto simp: filter_empty_conv)
  then obtain e where e: "first_natural (filter (leased_by a now) (docs c)) = Some e"
    using first_natural_None [of "filter (leased_by a now) (docs c)"] by auto
  have "e = m"
    using first_natural_filter [OF e] m leased_by_unique [OF wf] by blast
  with e have "findOneAndUpdate c (leased_by a now) u Natural =
      (c\<lparr>docs := update_doc (doc_id m) u (docs c)\<rparr>, Inr (Some (u m)))"
    using findOneAndUpdate_keep_ack [OF wf keep, of Natural "leased_by a now" m] by simp
  moreover have "sorted_wrt (<) (map doc_id (docs c))" using wf by (simp add: well_formed_def)
  ultimately show "findOneAndUpdate c (leased_by a now) u Natural =
      (c\<lparr>docs := map (\<lambda>d. if d = m then u m else d) (docs c)\<rparr>, Inr (Some (u m)))"
    using m(1) by (simp add: update_doc_only)
qed

lemma first_sorted_single: "first_sorted [d] = Some d"
  by simp

lemma sorted_ids_distinct: "sorted_wrt (<) (map doc_id ds) \<Longrightarrow> distinct ds"
  by (induction ds) auto

lemma replace_absent: "m \<notin> set ds \<Longrightarrow> map (\<lambda>d. if d = m then m' else d) ds = ds"
  by (induction ds) auto

lemma count_replace:
  "distinct ds \<Longrightarrow> m \<in> set ds \<Longrightarrow> \<not> P m \<Longrightarrow> P m' \<Longrightarrow>
   length (filter P (map (\<lambda>d. if d = m then m' else d) ds)) = Suc (length (filter P ds))"
proof (induction ds)
  case Nil
  then show ?case by simp
next
  case (Cons x xs)
  show ?case
  proof (cases "x = m")
    case True
    then have "m \<notin> set xs" using Cons.prems(1) by simp
    then show ?thesis using True Cons.prems(3,4) by (simp add: replace_absent)
  next
    case False
    then show ?thesis using Cons by simp
  qed
qed

lemma retired_findOneAndUpdate:
  assumes "retired i c" and "\<And>d. doc_id (u d) = doc_id d"
    and "\<And>d. deleted_exists d \<Longrightarrow> deleted_exists (u d)"
  shows "retired i (fst (findOneAndUpdate c flt u srt))"
  using assms
  by (auto simp: retired_def findOneAndUpdate_def Let_def update_doc_def list_all_iff
      split: option.splits)

lemma retired_exec: "retired i c \<Longrightarrow> retired i (exec q c call)"
proof (cases call)
  case (Pair now op)
  assume r: "retired i c"
  show ?thesis
  proof (cases op)
    case (Add p dopt)
    with Pair r show ?thesis
      by (auto simp: queue_add_def Let_def insertOne_def retired_def list_all_iff)
  next
    case (Get vopt a)
    have "retired i (fst (findOneAndUpdate c flt (claim_update b v) srt))" for flt b v srt
      using r by (rule retired_findOneAndUpdate)
        (simp_all add: claim_update_def deleted_exists_def)
    with Pair Get show ?thesis by (simp add: fst_queue_get)
  next
    case (Ping a vopt)
    have "retired i (fst (findOneAndUpdate c flt (\<lambda>d. d\<lparr>visible := v\<rparr>) srt))" for flt v srt
      using r by (rule retired_findOneAndUpdate) (simp_all add: deleted_exists_def)
    with Pair Ping show ?thesis by (simp add: fst_queue_ping)
  next
    case (Ack a)
    have "retired i (fst (findOneAndUpdate c flt (\<lambda>d. d\<lparr>deleted := Value v\<rparr>) srt))" for flt v srt
      using r by (rule retired_findOneAndUpdate) (simp_all add: deleted_exists_def)
    with Pair Ack show ?thesis by (simp add: fst_queue_ack)
  next
    case Clean
    with Pair r show ?thesis
      by (auto simp: queue_clean_def deleteMany_def retired_def list_all_iff)
  qed
qed

lemma retired_run: "retired i c \<Longrightarrow> retired i (run q c cs)"
  unfolding run_def by (induction cs arbitrary: c) (simp_all add: retired_exec)

lemma retired_not_claimed:
  assumes wf: "well_formed c" and r: "retired i c"
    and g: "queue_get q c now vopt a = (c', Inr (Some m))"
  shows "msg_id m \<noteq> i"
proof -
  obtain d where d: "first_sorted (filter (available now) (docs c)) = Some d"
    and m: "m = \<lparr>msg_id = doc_id d, msg_ack = Some a, msg_payload = payload d,
         msg_tries = inc_tries (tries d)\<rparr>"
    using queue_get_Some [OF wf g] by blast
  have mem: "d \<in> set (docs c)" and av: "available now d"
    using first_sorted_mem [OF d] by simp_all
  have "doc_ok d" using wf mem by (simp add: well_formed_def list_all_iff)
  with av have "\<not> deleted_exists d"
    by (auto simp: available_def deleted_null_def deleted_exists_def doc_ok_def)
  with r mem have "doc_id d \<noteq> i" by (auto simp: retired_def list_all_iff)
  with m show ?thesis by simp
qed

lemma queue_ack_cases:
  assumes wf: "well_formed c"
  shows "(\<not> (\<exists>d\<in>set (docs c). leased_by a now d) \<longrightarrow>
            queue_ack c now a = (c, Inl (Error (''Queue.ack(): Unidentified ack : '' @ a))))
       \<and> (\<forall>m\<in>set (docs c). leased_by a now m \<longrightarrow>
            queue_ack c now a =
              (c\<lparr>docs := map (\<lambda>d. if d = m then m\<lparr>deleted := Value now\<rparr> else d) (docs c)\<rparr>,
               Inr (doc_id m)))"
proof -
  have "(\<not> (\<exists>d\<in>set (docs c). leased_by a now d) \<longrightarrow>
            findOneAndUpdate c (leased_by a now) (\<lambda>d. d\<lparr>deleted := Value now\<rparr>) Natural = (c, Inr None))
       \<and> (\<forall>m\<in>set (docs c). leased_by a now m \<longrightarrow>
            findOneAndUpdate c (leased_by a now) (\<lambda>d. d\<lparr>deleted := Value now\<rparr>) Natural =
              (c\<lparr>docs := map (\<lambda>d. if d = m then m\<lparr>deleted := Value now\<rparr> else d) (docs c)\<rparr>,
               Inr (Some (m\<lparr>deleted := Value now\<rparr>))))"
    using wf by (rule findOneAndUpdate_lease) simp
  then show ?thesis by (simp add: queue_ack_def)
qed

lemma count_update_doc:
  "(\<And>d. P (u d) = P d) \<Longrightarrow> length (filter P (update_doc i u ds)) = length (filter P ds)"
  by (induction ds) (simp_all add: update_doc_Nil update_doc_Cons)

lemma update_doc_mem: "d \<in> set ds \<Longrightarrow> u d \<in> set (update_doc (doc_id d) u ds)"
  by (auto simp: update_doc_def)

lemma queue_get_returns:
  assumes wf: "well_formed c"
    and g: "queue_get q c now vopt a = (c1, Inr (Some r))"
  shows "\<exists>d\<in>set (docs c). available now d
    \<and> r = \<lparr>msg_id = doc_id d, msg_ack = Some a, msg_payload = payload d,
           msg_tries = inc_tries (tries d)\<rparr>
    \<and> (\<forall>e\<in>set (docs c). e \<noteq> d \<longrightarrow> ack e \<noteq> Some a)
    \<and> c1 = c\<lparr>docs := map (\<lambda>x. if x = d
           then claim_update a (nowPlusSecs now (case vopt of None \<Rightarrow> visibility q | Some v \<Rightarrow> v)) d
           else x) (docs c)\<rparr>
    \<and> claim_update a (nowPlusSecs now (case vopt of None \<Rightarrow> visibility q | Some v \<Rightarrow> v)) d
        \<in> set (docs c1)
    \<and> well_formed c1"
proof -
  let ?v = "nowPlusSecs now (case vopt of None \<Rightarrow> visibility q | Some v \<Rightarrow> v)"
  obtain d where d: "first_sorted (filter (available now) (docs c)) = Some d"
    and tok: "\<forall>e\<in>set (docs c). doc_id e \<noteq> doc_id d \<longrightarrow> ack e \<noteq> Some a"
    and c1: "c1 = c\<lparr>docs := update_doc (doc_id d) (claim_update a ?v) (docs c)\<rparr>"
    and r: "r = \<lparr>msg_id = doc_id d, msg_ack = Some a, msg_payload = payload d,
         msg_tries = inc_tries (tries d)\<rparr>"
    using queue_get_Some [OF wf g] by blast
  have dmem: "d \<in> set (docs c)" and av: "available now d"
    using first_sorted_mem [OF d] by simp_all
  have sorted: "sorted_wrt (<) (map doc_id (docs c))" using wf by (simp add: well_formed_def)
  have "exec q c (now, Get vopt a) = c1" using g by simp
  then have wf1: "well_formed c1" using well_formed_exec [OF wf, of q "(now, Get vopt a)"] by simp
  have tok': "\<forall>e\<in>set (docs c). e \<noteq> d \<longrightarrow> ack e \<noteq> Some a"
    using tok ids_inj [OF sorted _ dmem] by auto
  have c1': "c1 = c\<lparr>docs := map (\<lambda>x. if x = d then claim_update a ?v d else x) (docs c)\<rparr>"
    using c1 update_doc_only [OF sorted dmem] by simp
  have "claim_update a ?v d \<in> set (docs c1)" using dmem by (simp add: c1 update_doc_mem)
  with dmem av r tok' c1' wf1 show ?thesis by blast
qed


lemma at_most_one_match:
  "distinct ds \<Longrightarrow> (\<And>d e. d \<in> set ds \<Longrightarrow> e \<in> set ds \<Longrightarrow> P d \<Longrightarrow> P e \<Longrightarrow> d = e) \<Longrightarrow>
   length (filter P ds) \<le> 1"
proof (induction ds)
  case Nil
  then show ?case by simp
next
  case (Cons x xs)
  show ?case
  proof (cases "P x")
    case True
    have "filter P xs = []"
    proof (rule ccontr)
      assume "filter P xs \<noteq> []"
      then obtain y where "y \<in> set xs" "P y" by (auto simp: filter_empty_conv)
      then have "y = x" using Cons.prems(2) [of y x] True by simp
      with \<open>y \<in> set xs\<close> Cons.prems(1) show False by simp
    qed
    then show ?thesis using True by simp
  next
    case False
    then show ?thesis using Cons by simp
  qed
qed

lemma token_unique:
  assumes "well_formed c" and "d \<in> set (docs c)" and "e \<in> set (docs c)"
    and "ack d = Some a" and "ack e = Some a"
  shows "d = e"
proof -
  have "doc_id d = doc_id e"
    using assms by (intro acks_unique [of "docs c" d e a]) (simp_all add: well_formed_def)
  then show ?thesis using assms(1-3) ids_inj [of "docs c" d e] by (simp add: well_formed_def)
qed

lemma token_kept_findOneAndUpdate:
  assumes wf: "well_formed c"
    and id: "\<And>x. doc_id (u x) = doc_id x"
    and keep: "\<And>x. ack x \<noteq> None \<Longrightarrow> ack (u x) \<noteq> None"
    and d: "d \<in> set (docs c)" "ack d \<noteq> None"
    and e: "e \<in> set (docs (fst (findOneAndUpdate c flt u srt)))" "doc_id e = doc_id d"
  shows "ack e \<noteq> None"
proof -
  have sorted: "sorted_wrt (<) (map doc_id (docs c))" using wf by (simp add: well_formed_def)
  have "e \<in> set (docs c) \<or> (\<exists>i. e \<in> set (update_doc i u (docs c)))"
    using e(1) by (auto simp: findOneAndUpdate_def Let_def split: option.splits if_splits)
  then obtain x where x: "x \<in> set (docs c)" "e = x \<or> e = u x"
    by (auto simp: update_doc_def split: if_splits)
  then have "doc_id x = doc_id d" using e(2) id by auto
  then have "x = d" using ids_inj [OF sorted x(1) d(1)] by simp
  with x(2) d(2) keep show ?thesis by auto
qed

lemma token_kept_exec:
  assumes wf: "well_formed c"
    and d: "d \<in> set (docs c)" "ack d \<noteq> None"
    and e: "e \<in> set (docs (exec q c call))" "doc_id e = doc_id d"
  shows "ack e \<noteq> None"
proof (cases call)
  case (Pair now op)
  have sorted: "sorted_wrt (<) (map doc_id (docs c))" using wf by (simp add: well_formed_def)
  have old: "ack e \<noteq> None" if "e \<in> set (docs c)"
    using ids_inj [OF sorted that d(1) e(2)] d(2) by simp
  show ?thesis
  proof (cases op)
    case (Add p dopt)
    have "doc_id d < next_id c" using wf d(1) by (simp add: well_formed_def list_all_iff)
    then have "e \<in> set (docs c)"
      using e Pair Add by (auto simp: queue_add_def Let_def insertOne_def)
    then show ?thesis by (rule old)
  next
    case (Get vopt a)
    have "e \<in> set (docs (fst (findOneAndUpdate c (available now)
        (claim_update a (nowPlusSecs now (case vopt of None \<Rightarrow> visibility q | Some v \<Rightarrow> v)))
        ByTriesThenId)))"
      using e(1) Pair Get by (simp add: fst_queue_get)
    then show ?thesis
      using wf d e(2) by (elim token_kept_findOneAndUpdate [rotated 5]) (simp_all add: claim_update_def)
  next
    case (Ping a vopt)
    have "e \<in> set (docs (fst (findOneAndUpdate c (leased_by a now)
        (\<lambda>d. d\<lparr>visible := nowPlusSecs now (case vopt of None \<Rightarrow> visibility q | Some v \<Rightarrow> v)\<rparr>)
        Natural)))"
      using e(1) Pair Ping by (simp add: fst_queue_ping)
    then show ?thesis
      using wf d e(2) by (elim token_kept_findOneAndUpdate [rotated 5]) simp_all
  next
    case (Ack a)
    have "e \<in> set (docs (fst (findOneAndUpdate c (leased_by a now)
        (\<lambda>d. d\<lparr>deleted := Value now\<rparr>) Natural)))"
      using e(1) Pair Ack by (simp add: fst_queue_ack)
    then show ?thesis
      using wf d e(2) by (elim token_kept_findOneAndUpdate [rotated 5]) simp_all
  next
    case Clean
    then have "e \<in> set (docs c)"
      using e(1) Pair by (simp add: queue_clean_def deleteMany_def)
    then show ?thesis by (rule old)
  qed
qed




text \<open>
  The index is what keeps tokens apart: on the collection without it (\<^verbatim>\<open>createIndexes\<close>
  never called), two claims that generate the same token both succeed.
\<close>

lemma tokens_repeat_without_index:
  "acks (docs (run example_queue (empty_collection :: string Collection)
      [(0, Add ''first'' None), (0, Add ''second'' None), (0, Get None ''t1''), (0, Get None ''t1'')])) =
   [''t1'', ''t1'']"
  by code_simp

lemma example_completed_well_formed: "well_formed example_completed"
proof -
  have eq: "example_completed =
      run example_queue example_collection [(20000, Get None ''t2''), (21000, Ack ''t2'')]"
    by (simp add: run_def example_completed_def example_claimed_def)
  show ?thesis
    unfolding eq by (rule well_formed_run [OF example_collection_well_formed])
qed

section \<open>The claims\<close>

text \<open>
  C1 (one lease per token). In every collection reached from the fresh one (the empty
  collection with the unique sparse index of \<^verbatim>\<open>createIndexes\<close>) by any calls of \<^verbatim>\<open>add\<close>,
  \<^verbatim>\<open>get\<close>, \<^verbatim>\<open>ping\<close>, \<^verbatim>\<open>ack\<close> and \<^verbatim>\<open>clean\<close> at any instants: a document has at most one
  token (its one \<^verbatim>\<open>ack\<close> field); two documents with the same token are the same document,
  so no two distinct in-flight documents share a token and at every instant at most one
  document is leased under a given token; and a \<^verbatim>\<open>get\<close> that returns a message returns the
  generated token, which no other document carried before the call or carries after it.
\<close>

theorem tokens_identify_one_lease:
  "(\<forall>d\<in>set (docs (run q fresh cs)). \<forall>e\<in>set (docs (run q fresh cs)).
       ack d \<noteq> None \<and> ack d = ack e \<longrightarrow> d = e)
   \<and> (\<forall>now. \<forall>d\<in>set (docs (run q fresh cs)). \<forall>e\<in>set (docs (run q fresh cs)).
       in_flight now d \<and> in_flight now e \<and> d \<noteq> e \<longrightarrow> ack d \<noteq> ack e)
   \<and> (\<forall>a now. length (filter (leased_by a now) (docs (run q fresh cs))) \<le> 1)
   \<and> (\<forall>now vopt a c' r.
        queue_get q (run q fresh cs) now vopt a = (c', Inr (Some r)) \<longrightarrow>
        msg_ack r = Some a
        \<and> (\<forall>d\<in>set (docs (run q fresh cs)). doc_id d \<noteq> msg_id r \<longrightarrow> ack d \<noteq> Some a)
        \<and> (\<forall>d\<in>set (docs c'). doc_id d \<noteq> msg_id r \<longrightarrow> ack d \<noteq> Some a)
        \<and> (\<exists>d\<in>set (docs c'). doc_id d = msg_id r \<and> ack d = Some a))"
proof -
  let ?c = "run q fresh cs"
  have wf: "well_formed ?c" by (rule run_well_formed)
  have uniq: "d = e" if "d \<in> set (docs ?c)" "e \<in> set (docs ?c)" "ack d \<noteq> None" "ack d = ack e" for d e
    using that token_unique [OF wf that(1,2)] by auto
  have flight: "ack d \<noteq> ack e"
    if "d \<in> set (docs ?c)" "e \<in> set (docs ?c)" "in_flight now d" "in_flight now e" "d \<noteq> e"
    for now d e
    using that uniq [of d e] by (auto simp: in_flight_def)
  have one: "length (filter (leased_by a now) (docs ?c)) \<le> 1" for a now
  proof (rule at_most_one_match)
    show "distinct (docs ?c)" using wf by (simp add: well_formed_def sorted_ids_distinct)
  next
    fix d e assume "d \<in> set (docs ?c)" "e \<in> set (docs ?c)" "leased_by a now d" "leased_by a now e"
    then show "d = e" using leased_by_unique [OF wf] by blast
  qed
  have claim: "msg_ack r = Some a
        \<and> (\<forall>d\<in>set (docs ?c). doc_id d \<noteq> msg_id r \<longrightarrow> ack d \<noteq> Some a)
        \<and> (\<forall>d\<in>set (docs c'). doc_id d \<noteq> msg_id r \<longrightarrow> ack d \<noteq> Some a)
        \<and> (\<exists>d\<in>set (docs c'). doc_id d = msg_id r \<and> ack d = Some a)"
    if g: "queue_get q ?c now vopt a = (c', Inr (Some r))" for now vopt a c' r
  proof -
    let ?v = "nowPlusSecs now (case vopt of None \<Rightarrow> visibility q | Some v \<Rightarrow> v)"
    obtain d where dmem: "d \<in> set (docs ?c)"
      and r: "r = \<lparr>msg_id = doc_id d, msg_ack = Some a, msg_payload = payload d,
           msg_tries = inc_tries (tries d)\<rparr>"
      and before: "\<forall>e\<in>set (docs ?c). e \<noteq> d \<longrightarrow> ack e \<noteq> Some a"
      and mmem: "claim_update a ?v d \<in> set (docs c')" and wf': "well_formed c'"
      using queue_get_returns [OF wf g] by blast
    let ?m = "claim_update a ?v d"
    have mack: "ack ?m = Some a" and mid: "doc_id ?m = msg_id r"
      by (simp_all add: claim_update_def r)
    have after: "ack e \<noteq> Some a" if "e \<in> set (docs c')" "doc_id e \<noteq> msg_id r" for e
      using token_unique [OF wf' that(1) mmem _ mack] that(2) mid by auto
    have "\<forall>e\<in>set (docs ?c). doc_id e \<noteq> msg_id r \<longrightarrow> ack e \<noteq> Some a"
      using before by (auto simp: r)
    then show ?thesis using after mmem mack mid by (auto simp: r)
  qed
  show ?thesis
    apply (intro conjI ballI allI impI)
    subgoal for d e using uniq [of d e] by blast
    subgoal for now d e using flight [of d e now] by blast
    subgoal for a now by (rule one)
    subgoal for now vopt a c' r using claim [of now vopt a c' r] by blast
    subgoal for now vopt a c' r d using claim [of now vopt a c' r] by blast
    subgoal for now vopt a c' r d using claim [of now vopt a c' r] by blast
    subgoal for now vopt a c' r using claim [of now vopt a c' r] by blast
    done
qed

theorem tokens_identify_one_lease_witness:
  "length (filter (leased_by ''t1'' 5000) (docs example_collection)) = 1
   \<and> length (filter (leased_by ''t1'' 5000) (docs example_collection)) \<le> 1
   \<and> queue_get example_queue example_collection 20000 None ''t1'' =
       (example_collection, Inl DuplicateKey)
   \<and> queue_get example_queue example_collection 20000 None ''t2'' =
       (example_claimed,
        Inr (Some \<lparr>msg_id = 1, msg_ack = Some ''t2'', msg_payload = ''second'', msg_tries = Some 1\<rparr>))
   \<and> acks (docs example_claimed) = [''t1'', ''t2'']"
proof -
  have one: "length (filter (leased_by ''t1'' 5000) (docs example_collection)) \<le> 1"
    using tokens_identify_one_lease
      [of example_queue "[(0, Add ''first'' None), (0, Add ''second'' None),
        (0, Add ''later'' (Some 60)), (1000, Get (Some 10) ''t1'')]"]
    unfolding example_collection_def by blast
  have "length (filter (leased_by ''t1'' 5000) (docs example_collection)) = 1"
    by code_simp
  moreover have "queue_get example_queue example_collection 20000 None ''t1'' =
       (example_collection, Inl DuplicateKey)"
    by code_simp
  moreover have "queue_get example_queue example_collection 20000 None ''t2'' =
       (example_claimed,
        Inr (Some \<lparr>msg_id = 1, msg_ack = Some ''t2'', msg_payload = ''second'', msg_tries = Some 1\<rparr>))"
    by code_simp
  moreover have "acks (docs example_claimed) = [''t1'', ''t2'']"
    by code_simp
  ultimately show ?thesis using one by blast
qed







text \<open>
  C5 (\<^verbatim>\<open>get\<close> then \<^verbatim>\<open>ack\<close>). On a well-formed collection: when \<^verbatim>\<open>get\<close> returns a message with
  token \<open>a\<close> and \<^verbatim>\<open>ack\<close> of \<open>a\<close> then succeeds, \<^verbatim>\<open>ack\<close> returns that message's identifier and
  replaces its document, whose \<^verbatim>\<open>deleted\<close> was unset, by the same document with
  \<open>deleted = now'\<close>; every document stays in the collection, so \<^verbatim>\<open>total\<close> is unchanged
  (by the claim as well) and \<^verbatim>\<open>done\<close> is one more than before (the claim left it as
  it was). Whatever calls follow, no \<^verbatim>\<open>get\<close> returns that identifier again.
\<close>

theorem ack_completes_claimed_message:
  assumes wf: "well_formed c"
    and g: "queue_get q c now vopt a = (c1, Inr (Some r))"
    and k: "queue_ack c1 now' a = (c2, Inr i)"
  shows "msg_ack r = Some a \<and> i = msg_id r
   \<and> (\<exists>m\<in>set (docs c1). doc_id m = msg_id r \<and> deleted m = Missing
        \<and> c2 = c1\<lparr>docs := map (\<lambda>d. if d = m then m\<lparr>deleted := Value now'\<rparr> else d) (docs c1)\<rparr>)
   \<and> queue_total c2 = queue_total c1 \<and> queue_done c2 = queue_done c1 + 1
   \<and> queue_total c1 = queue_total c \<and> queue_done c1 = queue_done c
   \<and> (\<forall>q' cs t v b c3 r'.
        queue_get q' (run q' c2 cs) t v b = (c3, Inr (Some r')) \<longrightarrow> msg_id r' \<noteq> msg_id r)"
proof -
  let ?v = "nowPlusSecs now (case vopt of None \<Rightarrow> visibility q | Some v \<Rightarrow> v)"
  obtain d where d: "first_sorted (filter (available now) (docs c)) = Some d"
    and c1: "c1 = c\<lparr>docs := update_doc (doc_id d) (claim_update a ?v) (docs c)\<rparr>"
    and r: "r = \<lparr>msg_id = doc_id d, msg_ack = Some a, msg_payload = payload d,
         msg_tries = inc_tries (tries d)\<rparr>"
    using queue_get_Some [OF wf g] by blast
  have dmem: "d \<in> set (docs c)" using first_sorted_mem [OF d] by simp
  have "exec q c (now, Get vopt a) = c1" using g by simp
  then have wf1: "well_formed c1" using well_formed_exec [OF wf, of q "(now, Get vopt a)"] by simp
  have sorted1: "sorted_wrt (<) (map doc_id (docs c1))" and dist1: "distinct (acks (docs c1))"
    using wf1 by (simp_all add: well_formed_def)
  let ?d' = "claim_update a ?v d"
  have d'mem: "?d' \<in> set (docs c1)" using dmem by (simp add: c1 update_doc_mem)
  have d'ack: "ack ?d' = Some a" and d'id: "doc_id ?d' = doc_id d"
    by (simp_all add: claim_update_def)
  have live: "\<exists>m\<in>set (docs c1). leased_by a now' m"
    using k queue_ack_cases [OF wf1, of a now'] by auto
  then obtain m where mmem: "m \<in> set (docs c1)" and ml: "leased_by a now' m" by blast
  have ack_eq: "queue_ack c1 now' a =
      (c1\<lparr>docs := map (\<lambda>d. if d = m then m\<lparr>deleted := Value now'\<rparr> else d) (docs c1)\<rparr>,
       Inr (doc_id m))"
    using queue_ack_cases [OF wf1, of a now'] mmem ml by blast
  have mid: "doc_id m = doc_id d"
    using acks_unique [OF dist1 mmem d'mem _ d'ack] ml d'id by (simp add: leased_by_def)
  have "doc_ok m" using wf1 mmem by (simp add: well_formed_def list_all_iff)
  then have mdel: "deleted m = Missing"
    using ml by (auto simp: leased_by_def deleted_null_def doc_ok_def)
  have c2: "c2 = c1\<lparr>docs := map (\<lambda>d. if d = m then m\<lparr>deleted := Value now'\<rparr> else d) (docs c1)\<rparr>"
    and i: "i = doc_id m"
    using k ack_eq by simp_all
  have total2: "queue_total c2 = queue_total c1"
    by (simp add: c2 queue_total_def countDocuments_def)
  have done2: "queue_done c2 = queue_done c1 + 1"
    unfolding c2 queue_done_def countDocuments_def
    using count_replace [of "docs c1" m deleted_exists "m\<lparr>deleted := Value now'\<rparr>"]
      sorted_ids_distinct [OF sorted1] mmem mdel
    by (simp add: deleted_exists_def)
  have total1: "queue_total c1 = queue_total c"
    by (simp add: c1 queue_total_def countDocuments_def update_doc_def)
  have done1: "queue_done c1 = queue_done c"
    unfolding c1 queue_done_def countDocuments_def
    by (simp add: count_update_doc claim_update_def deleted_exists_def)
  have "exec q c1 (now', Ack a) = c2" using k by simp
  then have wf2: "well_formed c2" using well_formed_exec [OF wf1, of q "(now', Ack a)"] by simp
  have "doc_id m < next_id c1" using wf1 mmem by (simp add: well_formed_def list_all_iff)
  moreover have "e = m" if "e \<in> set (docs c1)" "doc_id e = doc_id m" for e
    using ids_inj [OF sorted1 that(1) mmem that(2)] .
  ultimately have ret: "retired (doc_id m) c2"
    by (auto simp: c2 retired_def list_all_iff deleted_exists_def)
  have never: "msg_id r' \<noteq> msg_id r"
    if "queue_get q' (run q' c2 cs) t v b = (c3, Inr (Some r'))" for q' cs t v b c3 r'
    using retired_not_claimed [OF well_formed_run [OF wf2] retired_run [OF ret] that]
    by (simp add: r mid)
  show ?thesis
    using mmem mid mdel c2 i total2 done2 total1 done1 never by (auto simp: r)
qed

theorem ack_completes_claimed_message_witness:
  "well_formed example_collection
   \<and> queue_get example_queue example_collection 20000 None ''t2'' =
       (example_claimed,
        Inr (Some \<lparr>msg_id = 1, msg_ack = Some ''t2'', msg_payload = ''second'', msg_tries = Some 1\<rparr>))
   \<and> queue_ack example_claimed 21000 ''t2'' = (example_completed, Inr 1)
   \<and> queue_total example_completed = queue_total example_claimed
   \<and> queue_done example_completed = queue_done example_claimed + 1
   \<and> queue_done example_completed = 1
   \<and> queue_total example_completed = 3
   \<and> snd (queue_get example_queue (run example_queue example_completed [(59000, Ping ''t2'' None)])
          59000 None ''t3'') =
       Inr (Some \<lparr>msg_id = 0, msg_ack = Some ''t3'', msg_payload = ''first'', msg_tries = Some 2\<rparr>)"
proof -
  note wf = example_collection_well_formed
  have g: "queue_get example_queue example_collection 20000 None ''t2'' =
       (example_claimed,
        Inr (Some \<lparr>msg_id = 1, msg_ack = Some ''t2'', msg_payload = ''second'', msg_tries = Some 1\<rparr>))"
    by code_simp
  have k: "queue_ack example_claimed 21000 ''t2'' = (example_completed, Inr 1)"
    by code_simp
  have counts: "queue_total example_completed = queue_total example_claimed
      \<and> queue_done example_completed = queue_done example_claimed + 1"
    using ack_completes_claimed_message [OF wf g k] by blast
  have "queue_done example_completed = 1" by code_simp
  moreover have "queue_total example_completed = 3" by code_simp
  moreover have "snd (queue_get example_queue
        (run example_queue example_completed [(59000, Ping ''t2'' None)]) 59000 None ''t3'') =
       Inr (Some \<lparr>msg_id = 0, msg_ack = Some ''t3'', msg_payload = ''first'', msg_tries = Some 2\<rparr>)"
    by code_simp
  ultimately show ?thesis using wf g k counts by simp
qed





text \<open>
  C8 (\<^verbatim>\<open>clean\<close>). Purging is idempotent: a second \<^verbatim>\<open>clean\<close> right after the first changes
  nothing, so \<^verbatim>\<open>total\<close> and \<^verbatim>\<open>done\<close> after it are what they were after the first (and
  \<^verbatim>\<open>done\<close> is 0). \<^verbatim>\<open>clean\<close> removes the documents that have the \<^verbatim>\<open>deleted\<close> field and
  keeps every other document as it is, in order; the store's counter and index are
  untouched. In a well-formed collection every document it removes has \<^verbatim>\<open>deleted\<close> set
  to an instant, that is, has been completed.
\<close>

theorem clean_idempotent:
  "queue_clean (queue_clean c) = queue_clean c
   \<and> queue_total (queue_clean (queue_clean c)) = queue_total (queue_clean c)
   \<and> queue_done (queue_clean (queue_clean c)) = queue_done (queue_clean c)
   \<and> queue_done (queue_clean c) = 0
   \<and> queue_clean c = c\<lparr>docs := filter (\<lambda>d. deleted d = Missing) (docs c)\<rparr>
   \<and> (well_formed c \<longrightarrow>
        (\<forall>d\<in>set (docs c). d \<notin> set (docs (queue_clean c)) \<longrightarrow> (\<exists>t. deleted d = Value t)))"
proof -
  have "\<exists>t. deleted d = Value t"
    if "well_formed c" "d \<in> set (docs c)" "d \<notin> set (docs (queue_clean c))" for d
  proof -
    have "doc_ok d" using that(1,2) by (simp add: well_formed_def list_all_iff)
    moreover have "deleted d \<noteq> Missing"
      using that(2,3) by (simp add: queue_clean_def deleteMany_def deleted_exists_def)
    ultimately show ?thesis by (cases "deleted d") (simp_all add: doc_ok_def)
  qed
  then show ?thesis
    by (simp add: queue_clean_def deleteMany_def queue_total_def queue_done_def
        countDocuments_def deleted_exists_def)
qed

theorem clean_idempotent_witness:
  "queue_clean example_completed =
     example_completed\<lparr>docs :=
       [\<lparr>doc_id = 0, visible = 11000, payload = ''first'', ack = Some ''t1'', tries = Some 1,
          deleted = Missing\<rparr>,
        \<lparr>doc_id = 2, visible = 60000, payload = ''later'', ack = None, tries = None,
          deleted = Missing\<rparr>]\<rparr>
   \<and> queue_total example_completed = 3 \<and> queue_done example_completed = 1
   \<and> queue_total (queue_clean example_completed) = 2
   \<and> queue_done (queue_clean example_completed) = 0
   \<and> queue_clean (queue_clean example_completed) = queue_clean example_completed
   \<and> well_formed example_completed"
proof -
  have "queue_clean (queue_clean example_completed) = queue_clean example_completed"
    using clean_idempotent [of example_completed] by blast
  moreover have "well_formed example_completed"
    by (rule example_completed_well_formed)
  moreover have "queue_clean example_completed =
     example_completed\<lparr>docs :=
       [\<lparr>doc_id = 0, visible = 11000, payload = ''first'', ack = Some ''t1'', tries = Some 1,
          deleted = Missing\<rparr>,
        \<lparr>doc_id = 2, visible = 60000, payload = ''later'', ack = None, tries = None,
          deleted = Missing\<rparr>]\<rparr>"
    by code_simp
  moreover have "queue_total example_completed = 3" "queue_done example_completed = 1"
    "queue_total (queue_clean example_completed) = 2"
    "queue_done (queue_clean example_completed) = 0"
    by code_simp+
  ultimately show ?thesis by blast
qed

text \<open>
  C9 (when a token is present). The claim, that a document with \<^verbatim>\<open>ack\<close> is currently
  leased, fails: no call removes \<^verbatim>\<open>ack\<close>, so a document keeps its token when its lease
  has expired and when it has been completed.
\<close>

theorem token_outlives_lease_counterexample:
  "\<not> token_implies_leased 30000
       (run example_queue (fresh :: string Collection)
          [(0, Add ''job'' None), (0, Get None ''t1'')])
   \<and> \<not> token_implies_leased 1000
       (run example_queue (fresh :: string Collection)
          [(0, Add ''job'' None), (0, Get None ''t1''), (1000, Ack ''t1'')])"
  by code_simp

text \<open>
  C9 as amended. In every collection reached from the fresh one, a document has \<^verbatim>\<open>ack\<close>
  exactly when it has \<^verbatim>\<open>tries\<close>, which is then at least 1: the token is there from the
  first claim on. Every document in flight has a token, and whatever call comes next,
  a document that has a token and is still in the collection still has one.
\<close>

theorem token_present_once_claimed:
  "list_all (\<lambda>d. (ack d \<noteq> None) = (tries d \<noteq> None) \<and> tries d \<noteq> Some 0)
       (docs (run q fresh cs))
   \<and> (\<forall>now. \<forall>d\<in>set (docs (run q fresh cs)). in_flight now d \<longrightarrow> ack d \<noteq> None)
   \<and> (\<forall>call. \<forall>d\<in>set (docs (run q fresh cs)).
         \<forall>e\<in>set (docs (exec q (run q fresh cs) call)).
           ack d \<noteq> None \<and> doc_id e = doc_id d \<longrightarrow> ack e \<noteq> None)"
proof -
  let ?c = "run q fresh cs"
  have wf: "well_formed ?c" by (rule run_well_formed)
  then have "list_all doc_ok (docs ?c)" by (simp add: well_formed_def)
  then have "list_all (\<lambda>d. (ack d \<noteq> None) = (tries d \<noteq> None) \<and> tries d \<noteq> Some 0) (docs ?c)"
    by (auto simp: list_all_iff doc_ok_def)
  moreover have "\<forall>now. \<forall>d\<in>set (docs ?c). in_flight now d \<longrightarrow> ack d \<noteq> None"
    by (simp add: in_flight_def)
  moreover have "\<forall>call. \<forall>d\<in>set (docs ?c). \<forall>e\<in>set (docs (exec q ?c call)).
           ack d \<noteq> None \<and> doc_id e = doc_id d \<longrightarrow> ack e \<noteq> None"
    using token_kept_exec [OF wf] by blast
  ultimately show ?thesis by blast
qed

theorem token_present_once_claimed_witness:
  "docs (run example_queue (fresh :: string Collection)
          [(0, Add ''job'' None), (0, Get None ''t1''), (1000, Ack ''t1'')]) =
     [\<lparr>doc_id = 0, visible = 30000, payload = ''job'', ack = Some ''t1'', tries = Some 1,
       deleted = Value 1000\<rparr>]
   \<and> list_all (\<lambda>d. (ack d \<noteq> None) = (tries d \<noteq> None) \<and> tries d \<noteq> Some 0)
       (docs (run example_queue (fresh :: string Collection)
          [(0, Add ''job'' None), (0, Get None ''t1''), (1000, Ack ''t1'')]))
   \<and> docs (exec example_queue
        (run example_queue (fresh :: string Collection) [(0, Add ''job'' None), (0, Get None ''t1'')])
        (50000, Ping ''t1'' None)) =
     [\<lparr>doc_id = 0, visible = 30000, payload = ''job'', ack = Some ''t1'', tries = Some 1,
       deleted = Missing\<rparr>]"
proof -
  have "list_all (\<lambda>d. (ack d \<noteq> None) = (tries d \<noteq> None) \<and> tries d \<noteq> Some 0)
       (docs (run example_queue (fresh :: string Collection)
          [(0, Add ''job'' None), (0, Get None ''t1''), (1000, Ack ''t1'')]))"
    using token_present_once_claimed
      [of example_queue "[(0, Add ''job'' None), (0, Get None ''t1''), (1000, Ack ''t1'')]"]
    by blast
  moreover have "docs (run example_queue (fresh :: string Collection)
          [(0, Add ''job'' None), (0, Get None ''t1''), (1000, Ack ''t1'')]) =
     [\<lparr>doc_id = 0, visible = 30000, payload = ''job'', ack = Some ''t1'', tries = Some 1,
       deleted = Value 1000\<rparr>]"
    by code_simp
  moreover have "docs (exec example_queue
        (run example_queue (fresh :: string Collection) [(0, Add ''job'' None), (0, Get None ''t1'')])
        (50000, Ping ''t1'' None)) =
     [\<lparr>doc_id = 0, visible = 30000, payload = ''job'', ack = Some ''t1'', tries = Some 1,
       deleted = Missing\<rparr>]"
    by code_simp
  ultimately show ?thesis by blast
qed



end
